theory Spec2Isabelle
  imports Main "HOL-Library.Sublist" "HOL-Library.AList"
begin

section \<open>Characters and strings\<close>

text \<open>
  Python strings are sequences of code points. A \<^typ>\<open>char\<close> with code \<open>n\<close> stands for
  the code point U+00\<open>n\<close>, so the model covers the documents written in ISO 8859-1; the
  classifications below are the ones Python applies to those code points.
\<close>

definition code :: "char \<Rightarrow> int" where
  "code c = of_char c"

text \<open>\<^verbatim>\<open>str.lower()\<close>, one code point at a time: A-Z and the accented capitals
  U+00C0..U+00DE (the multiplication sign U+00D7 apart) move up by 32.\<close>

definition lower_char :: "char \<Rightarrow> char" where
  "lower_char c =
     (if (65 \<le> code c \<and> code c \<le> 90) \<or> (192 \<le> code c \<and> code c \<le> 222 \<and> code c \<noteq> 215)
      then char_of (code c + 32) else c)"

definition lower :: "string \<Rightarrow> string" where
  "lower s = map lower_char s"

section \<open>Priority classification\<close>

text \<open>
  \<^verbatim>\<open>_determine_priority\<close>: the dictionary literal keeps its insertion order, so it is an
  association list; the loop returns at the first entry one of whose indicators is a
  substring (\<^verbatim>\<open>in\<close>) of the lower-cased sentence.
\<close>

definition priority_indicators :: "(string \<times> string list) list" where
  "priority_indicators =
     [(''high'', [''urgent'', ''critical'', ''important'', ''asap'', ''high priority'']),
      (''medium'', [''medium'', ''moderate'', ''normal'']),
      (''low'', [''low'', ''minor'', ''when possible'', ''if time permits''])]"

fun first_priority :: "(string \<times> string list) list \<Rightarrow> string \<Rightarrow> string option" where
  "first_priority [] sentence_lower = None"
| "first_priority ((priority, indicators) # items) sentence_lower =
     (if list_ex (\<lambda>indicator. sublist indicator sentence_lower) indicators
      then Some priority
      else first_priority items sentence_lower)"

definition determine_priority :: "string \<Rightarrow> string" where
  "determine_priority sentence =
     (case first_priority priority_indicators (lower sentence) of
        Some priority \<Rightarrow> priority
      | None \<Rightarrow> ''medium'')"

text \<open>The classifier as the specification words it: three fixed keyword sets, tried in
  the order high, medium, low on the case-folded sentence.\<close>

definition high_keywords :: "string set" where
  "high_keywords = {''urgent'', ''critical'', ''important'', ''asap'', ''high priority''}"

definition medium_keywords :: "string set" where
  "medium_keywords = {''medium'', ''moderate'', ''normal''}"

definition low_keywords :: "string set" where
  "low_keywords = {''low'', ''minor'', ''when possible'', ''if time permits''}"

definition matches_set :: "string set \<Rightarrow> string \<Rightarrow> bool" where
  "matches_set K sentence = (\<exists>k \<in> K. sublist k (lower sentence))"

definition priority_spec :: "string \<Rightarrow> string" where
  "priority_spec sentence =
     (if matches_set high_keywords sentence then ''high''
      else if matches_set medium_keywords sentence then ''medium''
      else if matches_set low_keywords sentence then ''low''
      else ''medium'')"


section \<open>Extracted records\<close>

text \<open>The dictionaries built by the extractors. \<^verbatim>\<open>None\<close> is \<^term>\<open>None\<close>.\<close>

record action_item =
  description :: string
  assignee :: "string option"
  priority :: string
  status :: string

record attendee =
  name :: string
  email :: "string option"

text \<open>Python's truth value of a string and of an optional string: \<^verbatim>\<open>None\<close> and
  the empty string are false.\<close>

definition truthy :: "string option \<Rightarrow> bool" where
  "truthy v = (case v of None \<Rightarrow> False | Some s \<Rightarrow> s \<noteq> [])"

section \<open>The property graph\<close>

text \<open>
  The graph store holds labelled nodes with properties and typed, directed edges. A node
  is identified by its position in the list of nodes: creation appends, nothing here
  deletes. \<^verbatim>\<open>datetime\<close> values are kept as their calendar fields.
\<close>

datatype datetime = Datetime nat nat nat nat nat nat

datatype label = Meeting | Topic | Person | ActionItem | Decision

datatype reltype = DISCUSSES | HAS_ACTION_ITEM | ASSIGNED_TO | MADE_DECISION | HAS_ATTENDEE

datatype pvalue = Str string | Date datetime

record node =
  label :: label
  props :: "(string \<times> pvalue) list"

record graph =
  nodes :: "node list"
  edges :: "(nat \<times> reltype \<times> nat) list"

definition empty_graph :: graph where
  "empty_graph = \<lparr>nodes = [], edges = []\<rparr>"

datatype error =
    ServiceUnavailable string | EngineError string | DatabaseError string | AttributeError string

subsection \<open>Cypher clauses\<close>

text \<open>
  A statement is evaluated clause by clause; each clause maps the table of rows bound so
  far and the graph to a new table and a new graph.

  \<^verbatim>\<open>(x:L {k: v})\<close> matches the nodes labelled \<open>L\<close> whose property \<open>k\<close> is \<open>v\<close>.
\<close>

definition has_prop :: "label \<Rightarrow> string \<Rightarrow> pvalue \<Rightarrow> node \<Rightarrow> bool" where
  "has_prop l k v n = (label n = l \<and> map_of (props n) k = Some v)"

definition match_nodes :: "label \<Rightarrow> string \<Rightarrow> pvalue \<Rightarrow> graph \<Rightarrow> nat list" where
  "match_nodes l k v g = filter (\<lambda>i. has_prop l k v (nodes g ! i)) [0..<length (nodes g)]"

definition create_node :: "node \<Rightarrow> graph \<Rightarrow> nat \<times> graph" where
  "create_node n g = (length (nodes g), g\<lparr>nodes := nodes g @ [n]\<rparr>)"

definition create_edge :: "nat \<Rightarrow> reltype \<Rightarrow> nat \<Rightarrow> graph \<Rightarrow> graph" where
  "create_edge a r b g = g\<lparr>edges := edges g @ [(a, r, b)]\<rparr>"

definition set_prop :: "nat \<Rightarrow> string \<Rightarrow> pvalue \<Rightarrow> graph \<Rightarrow> graph" where
  "set_prop i k v g =
     g\<lparr>nodes := (nodes g)[i := (nodes g ! i)\<lparr>props := AList.update k v (props (nodes g ! i))\<rparr>]\<rparr>"

text \<open>\<^verbatim>\<open>MERGE (x:L {k: v})\<close> for one row: every matching node is bound; when there is none,
  one is created with exactly that label and property.\<close>

definition merge_node :: "label \<Rightarrow> string \<Rightarrow> pvalue \<Rightarrow> graph \<Rightarrow> nat list \<times> graph" where
  "merge_node l k v g =
     (case match_nodes l k v g of
        [] \<Rightarrow> (let (i, g') = create_node \<lparr>label = l, props = [(k, v)]\<rparr> g in ([i], g'))
      | i # is \<Rightarrow> (i # is, g))"

text \<open>The clauses over a table: each row is extended by the node it binds. A later row
  of a \<^verbatim>\<open>MERGE\<close> sees the node an earlier row created.\<close>

fun create_rows :: "node \<Rightarrow> 'r list \<Rightarrow> graph \<Rightarrow> ('r \<times> nat) list \<times> graph" where
  "create_rows n [] g = ([], g)"
| "create_rows n (r # rs) g =
     (let (i, g1) = create_node n g;
          (rows, g2) = create_rows n rs g1
      in ((r, i) # rows, g2))"

fun merge_rows :: "label \<Rightarrow> string \<Rightarrow> pvalue \<Rightarrow> 'r list \<Rightarrow> graph \<Rightarrow> ('r \<times> nat) list \<times> graph" where
  "merge_rows l k v [] g = ([], g)"
| "merge_rows l k v (r # rs) g =
     (let (is, g1) = merge_node l k v g;
          (rows, g2) = merge_rows l k v rs g1
      in (map (Pair r) is @ rows, g2))"

definition create_edges :: "('r \<Rightarrow> nat \<times> reltype \<times> nat) \<Rightarrow> 'r list \<Rightarrow> graph \<Rightarrow> graph" where
  "create_edges e rows g = fold (\<lambda>r. case e r of (a, t, b) \<Rightarrow> create_edge a t b) rows g"

definition set_props :: "('r \<Rightarrow> nat) \<Rightarrow> string \<Rightarrow> pvalue \<Rightarrow> 'r list \<Rightarrow> graph \<Rightarrow> graph" where
  "set_props x k v rows g = fold (\<lambda>r. set_prop (x r) k v) rows g"

definition COALESCE :: "'a option \<Rightarrow> 'a \<Rightarrow> 'a" where
  "COALESCE v d = (case v of None \<Rightarrow> d | Some x \<Rightarrow> x)"

subsection \<open>The statements of \<^verbatim>\<open>store_in_neo4j\<close>\<close>

text \<open>One constructor for each \<^verbatim>\<open>session.run\<close> of the source, with its parameters.\<close>

datatype query =
    CreateMeeting string string datetime
  | LinkTopic string string
  | AddActionItem string action_item
  | AddDecision string string
  | AddAttendee string attendee

text \<open>\<^verbatim>\<open>CREATE (m:Meeting {title: $title, type: $type, timestamp: datetime($date)})\<close>\<close>

definition create_meeting :: "string \<Rightarrow> string \<Rightarrow> datetime \<Rightarrow> graph \<Rightarrow> graph" where
  "create_meeting title type date g =
     snd (create_node \<lparr>label = Meeting,
            props = [(''title'', Str title), (''type'', Str type), (''timestamp'', Date date)]\<rparr> g)"

text \<open>\<^verbatim>\<open>MATCH (m:Meeting {title: $title}) MERGE (t:Topic {name: $topic})
  CREATE (m)-[:DISCUSSES]->(t)\<close>\<close>

definition link_topic :: "string \<Rightarrow> string \<Rightarrow> graph \<Rightarrow> graph" where
  "link_topic title topic g =
     (let ms = match_nodes Meeting ''title'' (Str title) g;
          (rows, g1) = merge_rows Topic ''name'' (Str topic) ms g
      in create_edges (\<lambda>(m, t). (m, DISCUSSES, t)) rows g1)"

text \<open>\<^verbatim>\<open>MATCH (m:Meeting {title: $title})
  CREATE (a:ActionItem {description: $description, status: COALESCE($status, 'pending'),
  priority: COALESCE($priority, 'medium')})
  CREATE (m)-[:HAS_ACTION_ITEM]->(a)
  MERGE (p:Person {name: $assignee})
  CREATE (a)-[:ASSIGNED_TO]->(p)\<close>\<close>

definition add_action_item :: "string \<Rightarrow> action_item \<Rightarrow> string \<Rightarrow> graph \<Rightarrow> graph" where
  "add_action_item title item assignee_name g =
     (let ms = match_nodes Meeting ''title'' (Str title) g;
          (rows, g1) = create_rows \<lparr>label = ActionItem,
             props = [(''description'', Str (description item)),
                      (''status'', Str (COALESCE (Some (status item)) ''pending'')),
                      (''priority'', Str (COALESCE (Some (priority item)) ''medium''))]\<rparr> ms g;
          g2 = create_edges (\<lambda>(m, a). (m, HAS_ACTION_ITEM, a)) rows g1;
          (rows', g3) = merge_rows Person ''name'' (Str assignee_name) rows g2
      in create_edges (\<lambda>((m, a), p). (a, ASSIGNED_TO, p)) rows' g3)"

text \<open>\<^verbatim>\<open>MATCH (m:Meeting {title: $title}) CREATE (d:Decision {content: $decision})
  CREATE (m)-[:MADE_DECISION]->(d)\<close>\<close>

definition add_decision :: "string \<Rightarrow> string \<Rightarrow> graph \<Rightarrow> graph" where
  "add_decision title decision g =
     (let ms = match_nodes Meeting ''title'' (Str title) g;
          (rows, g1) = create_rows \<lparr>label = Decision, props = [(''content'', Str decision)]\<rparr> ms g
      in create_edges (\<lambda>(m, d). (m, MADE_DECISION, d)) rows g1)"

text \<open>\<^verbatim>\<open>MATCH (m:Meeting {title: $title}) MERGE (p:Person {name: $name})
  WITH m, p, $email as email WHERE email IS NOT NULL
  SET p.email = email
  WITH m, p
  CREATE (m)-[:HAS_ATTENDEE]->(p)\<close>

  The \<^verbatim>\<open>WHERE\<close> of a \<^verbatim>\<open>WITH\<close> filters the rows; the clauses after it see the rows
  that are left.\<close>

definition add_attendee :: "string \<Rightarrow> attendee \<Rightarrow> graph \<Rightarrow> graph" where
  "add_attendee title a g =
     (let ms = match_nodes Meeting ''title'' (Str title) g;
          (rows, g1) = merge_rows Person ''name'' (Str (name a)) ms g;
          rows' = filter (\<lambda>(m, p). email a \<noteq> None) rows;
          g2 = set_props (\<lambda>(m, p). p) ''email'' (Str (COALESCE (email a) [])) rows' g1
      in create_edges (\<lambda>(m, p). (m, HAS_ATTENDEE, p)) rows' g2)"

text \<open>The store, when it is available. \<^verbatim>\<open>MERGE\<close> on a null property value is an error
  of the store.\<close>

fun neo4j :: "query \<Rightarrow> graph \<Rightarrow> error + graph" where
  "neo4j (CreateMeeting title type date) g = Inr (create_meeting title type date g)"
| "neo4j (LinkTopic title topic) g = Inr (link_topic title topic g)"
| "neo4j (AddActionItem title item) g =
     (case assignee item of
        None \<Rightarrow> Inl (DatabaseError ''Cannot merge node using null property value for name'')
      | Some a \<Rightarrow> Inr (add_action_item title item a g))"
| "neo4j (AddDecision title decision) g = Inr (add_decision title decision g)"
| "neo4j (AddAttendee title a) g = Inr (add_attendee title a g)"

subsection \<open>\<^verbatim>\<open>store_in_neo4j\<close>\<close>

text \<open>
  The statements the call issues, in the order of the source: the meeting, then one
  statement for each topic, action item, decision and attendee that passes the guard of
  its loop.
\<close>

definition store_queries ::
  "string \<Rightarrow> string \<Rightarrow> datetime \<Rightarrow> string list \<Rightarrow> action_item list \<Rightarrow> string list
     \<Rightarrow> attendee list \<Rightarrow> query list" where
  "store_queries meeting_title meeting_type meeting_date topics action_items decisions attendees =
     CreateMeeting meeting_title meeting_type meeting_date
     # map (LinkTopic meeting_title) (filter (\<lambda>topic. topic \<noteq> []) topics)
     @ map (AddActionItem meeting_title)
         (filter (\<lambda>item. description item \<noteq> [] \<and> truthy (assignee item)) action_items)
     @ map (AddDecision meeting_title) (filter (\<lambda>decision. decision \<noteq> []) decisions)
     @ map (AddAttendee meeting_title) (filter (\<lambda>a. name a \<noteq> []) attendees)"

text \<open>\<^verbatim>\<open>session.run\<close> either changes the graph or raises; a statement that raises
  leaves the graph as it was and ends the call.\<close>

fun run_all :: "(query \<Rightarrow> graph \<Rightarrow> error + graph) \<Rightarrow> query list \<Rightarrow> graph \<Rightarrow> (error + unit) \<times> graph" where
  "run_all run [] g = (Inr (), g)"
| "run_all run (q # qs) g =
     (case run q g of
        Inl e \<Rightarrow> (Inl e, g)
      | Inr g' \<Rightarrow> run_all run qs g')"

definition store_in_neo4j ::
  "(query \<Rightarrow> graph \<Rightarrow> error + graph) \<Rightarrow> string \<Rightarrow> string \<Rightarrow> datetime \<Rightarrow> string list
     \<Rightarrow> action_item list \<Rightarrow> string list \<Rightarrow> attendee list \<Rightarrow> graph \<Rightarrow> (error + unit) \<times> graph" where
  "store_in_neo4j run meeting_title meeting_type meeting_date topics action_items decisions attendees g =
     run_all run
       (store_queries meeting_title meeting_type meeting_date topics action_items decisions attendees) g"

section \<open>Character classes\<close>









section \<open>Regular expressions\<close>

text \<open>
  The fragment of Python's \<^verbatim>\<open>re\<close> that the patterns of the program use: literal text,
  a character of a class, sequence, alternation, the greedy option, greedy repetition
  of a class at least \<open>n\<close> times (\<^verbatim>\<open>*\<close>, \<^verbatim>\<open>+\<close>, \<^verbatim>\<open>{n,}\<close>), the lazy star of a class and
  numbered capturing groups.
\<close>

datatype regex =
    Eps
  | Lit string
  | Cls "char \<Rightarrow> bool"
  | Seq regex regex
  | Alt regex regex
  | Opt regex
  | Rep nat "char \<Rightarrow> bool"
  | LazyStar "char \<Rightarrow> bool"
  | Group nat regex



datatype flag = NOFLAG | IGNORECASE

text \<open>Literal text at the start of the input; under \<^verbatim>\<open>re.IGNORECASE\<close> two characters
  agree when their lower-case forms do.\<close>

definition lit_prefix :: "flag \<Rightarrow> string \<Rightarrow> string \<Rightarrow> bool" where
  "lit_prefix f l s =
     (case f of
        NOFLAG \<Rightarrow> prefix l s
      | IGNORECASE \<Rightarrow> length l \<le> length s \<and> lower (take (length l) s) = lower l)"

text \<open>The inputs left after a repetition, in the order in which backtracking tries them:
  the greedy one gives the longest run first, the lazy one the shortest.\<close>

fun star_greedy :: "(char \<Rightarrow> bool) \<Rightarrow> string \<Rightarrow> string list" where
  "star_greedy p [] = [[]]"
| "star_greedy p (c # cs) = (if p c then star_greedy p cs @ [c # cs] else [c # cs])"

fun rep_greedy :: "nat \<Rightarrow> (char \<Rightarrow> bool) \<Rightarrow> string \<Rightarrow> string list" where
  "rep_greedy 0 p s = star_greedy p s"
| "rep_greedy (Suc n) p [] = []"
| "rep_greedy (Suc n) p (c # cs) = (if p c then rep_greedy n p cs else [])"

fun star_lazy :: "(char \<Rightarrow> bool) \<Rightarrow> string \<Rightarrow> string list" where
  "star_lazy p [] = [[]]"
| "star_lazy p (c # cs) = (c # cs) # (if p c then star_lazy p cs else [])"

text \<open>
  The backtracking matcher, as the list of its successes: every way in which the
  expression matches at the start of the input, each with the input that is left and the
  groups captured, in the order in which the search of \<^verbatim>\<open>re\<close> reaches them. The match
  that \<^verbatim>\<open>re\<close> reports at a position is the first of the list.
\<close>

type_synonym groups = "nat \<Rightarrow> string option"

fun matches :: "flag \<Rightarrow> regex \<Rightarrow> string \<Rightarrow> groups \<Rightarrow> (string \<times> groups) list" where
  "matches f Eps s g = [(s, g)]"
| "matches f (Lit l) s g = (if lit_prefix f l s then [(drop (length l) s, g)] else [])"
| "matches f (Cls p) s g = (case s of [] \<Rightarrow> [] | c # cs \<Rightarrow> if p c then [(cs, g)] else [])"
| "matches f (Seq a b) s g = concat (map (\<lambda>(s', g'). matches f b s' g') (matches f a s g))"
| "matches f (Alt a b) s g = matches f a s g @ matches f b s g"
| "matches f (Opt a) s g = matches f a s g @ [(s, g)]"
| "matches f (Rep n p) s g = map (\<lambda>s'. (s', g)) (rep_greedy n p s)"
| "matches f (LazyStar p) s g = map (\<lambda>s'. (s', g)) (star_lazy p s)"
| "matches f (Group i a) s g =
     map (\<lambda>(s', g'). (s', g'(i \<mapsto> take (length s - length s') s))) (matches f a s g)"







section \<open>The natural language engines\<close>



section \<open>Patterns\<close>












section \<open>Extraction\<close>

















section \<open>Example data\<close>

definition ex_date :: datetime where
  "ex_date = Datetime 2025 2 1 9 0 0"

definition ex_items :: "action_item list" where
  "ex_items =
     [\<lparr>description = ''Write the report'', assignee = Some ''Bob'', priority = ''high'',
        status = ''pending''\<rparr>,
      \<lparr>description = ''Book a room'', assignee = None, priority = ''medium'',
        status = ''pending''\<rparr>,
      \<lparr>description = [], assignee = Some ''Al'', priority = ''medium'', status = ''pending''\<rparr>]"

definition ex_attendees :: "attendee list" where
  "ex_attendees =
     [\<lparr>name = ''Bob'', email = Some ''bob@example.com''\<rparr>, \<lparr>name = ''Al'', email = None\<rparr>]"

text \<open>The store after one and after two ingestions of the same record under the same
  title, from the empty store: once with action items and decisions, once without.\<close>

definition ex_once :: graph where
  "ex_once = snd (store_in_neo4j neo4j ''Standup'' ''Daily'' ex_date [''budget'']
     ex_items [''Ship on Friday''] ex_attendees empty_graph)"

definition ex_twice :: graph where
  "ex_twice = snd (store_in_neo4j neo4j ''Standup'' ''Daily'' ex_date [''budget'']
     ex_items [''Ship on Friday''] ex_attendees ex_once)"

definition ex_plain_once :: graph where
  "ex_plain_once = snd (store_in_neo4j neo4j ''Standup'' ''Daily'' ex_date [''budget'']
     [] [] ex_attendees empty_graph)"

definition ex_plain_twice :: graph where
  "ex_plain_twice = snd (store_in_neo4j neo4j ''Standup'' ''Daily'' ex_date [''budget'']
     [] [] ex_attendees ex_plain_once)"








section \<open>Notions of the statements\<close>

text \<open>The Meeting nodes of a title and the nodes of a name, as the statements match
  them; the node of an action item; and the effect of a statement on the graph when the
  store is available.\<close>

abbreviation titled :: "string \<Rightarrow> graph \<Rightarrow> nat list" where
  "titled t g \<equiv> match_nodes Meeting ''title'' (Str t) g"

abbreviation named :: "label \<Rightarrow> string \<Rightarrow> graph \<Rightarrow> nat list" where
  "named l n g \<equiv> match_nodes l ''name'' (Str n) g"

definition action_item_node :: "action_item \<Rightarrow> node" where
  "action_item_node item =
     \<lparr>label = ActionItem,
      props = [(''description'', Str (description item)), (''status'', Str (status item)),
               (''priority'', Str (priority item))]\<rparr>"

definition effect :: "query \<Rightarrow> graph \<Rightarrow> graph" where
  "effect q g = (case neo4j q g of Inl e \<Rightarrow> g | Inr g' \<Rightarrow> g')"

fun linking :: "string \<Rightarrow> query \<Rightarrow> bool" where
  "linking T (CreateMeeting t ty d) = False"
| "linking T (LinkTopic t topic) = (t = T)"
| "linking T (AddActionItem t item) = (t = T \<and> assignee item \<noteq> None)"
| "linking T (AddDecision t d) = (t = T)"
| "linking T (AddAttendee t a) = (t = T)"

text \<open>The labels of the nodes a statement creates.\<close>

fun new_labels :: "query \<Rightarrow> graph \<Rightarrow> label list" where
  "new_labels (CreateMeeting t ty d) g = [Meeting]"
| "new_labels (LinkTopic t topic) g =
     (if titled t g = [] \<or> named Topic topic g \<noteq> [] then [] else [Topic])"
| "new_labels (AddActionItem t item) g =
     (case assignee item of
        None \<Rightarrow> []
      | Some a \<Rightarrow> replicate (length (titled t g)) ActionItem
          @ (if titled t g = [] \<or> named Person a g \<noteq> [] then [] else [Person]))"
| "new_labels (AddDecision t dc) g = replicate (length (titled t g)) Decision"
| "new_labels (AddAttendee t a) g =
     (if titled t g = [] \<or> named Person (name a) g \<noteq> [] then [] else [Person])"

text \<open>The action item nodes a statement creates.\<close>

definition action_items_of :: "graph \<Rightarrow> node list" where
  "action_items_of g = filter (\<lambda>n. label n = ActionItem) (nodes g)"

fun new_action_items :: "query \<Rightarrow> graph \<Rightarrow> node list" where
  "new_action_items (AddActionItem t item) g =
     (case assignee item of
        None \<Rightarrow> []
      | Some a \<Rightarrow> replicate (length (titled t g)) (action_item_node item))"
| "new_action_items q g = []"

definition link_queries ::
  "string \<Rightarrow> string list \<Rightarrow> action_item list \<Rightarrow> string list \<Rightarrow> attendee list \<Rightarrow> query list" where
  "link_queries t topics action_items decisions attendees =
     map (LinkTopic t) (filter (\<lambda>topic. topic \<noteq> []) topics)
     @ map (AddActionItem t)
         (filter (\<lambda>item. description item \<noteq> [] \<and> truthy (assignee item)) action_items)
     @ map (AddDecision t) (filter (\<lambda>decision. decision \<noteq> []) decisions)
     @ map (AddAttendee t) (filter (\<lambda>a. name a \<noteq> []) attendees)"

definition edges_from :: "nat list \<Rightarrow> nat \<Rightarrow> (nat \<times> reltype \<times> nat) list \<Rightarrow> bool" where
  "edges_from ms n es =
     (\<forall>(a, rel, b) \<in> set es. if rel = ASSIGNED_TO then n \<le> a else a \<in> set ms)"

definition count_label :: "label \<Rightarrow> graph \<Rightarrow> nat" where
  "count_label l g = length (filter (\<lambda>n. label n = l) (nodes g))"

fun targets_known :: "query \<Rightarrow> graph \<Rightarrow> bool" where
  "targets_known (LinkTopic t topic) g = (named Topic topic g \<noteq> [])"
| "targets_known (AddActionItem t item) g =
     (case assignee item of None \<Rightarrow> True | Some a \<Rightarrow> named Person a g \<noteq> [])"
| "targets_known (AddAttendee t a) g = (named Person (name a) g \<noteq> [])"
| "targets_known q g = True"

fun core_labels :: "query \<Rightarrow> nat \<Rightarrow> label list" where
  "core_labels (AddActionItem t item) k = replicate k ActionItem"
| "core_labels (AddDecision t dc) k = replicate k Decision"
| "core_labels q k = []"











section \<open>Lemmas\<close>

lemma nodes_create_edge [simp]: "nodes (create_edge a r b g) = nodes g"
  by (simp add: create_edge_def)

lemma edges_create_edge [simp]: "edges (create_edge a r b g) = edges g @ [(a, r, b)]"
  by (simp add: create_edge_def)

lemma nodes_create_edges [simp]: "nodes (create_edges e rows g) = nodes g"
  unfolding create_edges_def by (induction rows arbitrary: g) (auto split: prod.splits)

lemma edges_create_edges [simp]: "edges (create_edges e rows g) = edges g @ map e rows"
  unfolding create_edges_def by (induction rows arbitrary: g) (auto split: prod.splits)

lemma edges_set_prop [simp]: "edges (set_prop i k v g) = edges g"
  by (simp add: set_prop_def)

lemma length_nodes_set_prop [simp]: "length (nodes (set_prop i k v g)) = length (nodes g)"
  by (simp add: set_prop_def)

lemma label_set_prop [simp]: "map label (nodes (set_prop i k v g)) = map label (nodes g)"
  by (simp add: set_prop_def map_update) (metis list_update_id map_update)

lemma has_prop_set_prop:
  "k' \<noteq> k \<Longrightarrow> j < length (nodes g) \<Longrightarrow>
     has_prop l k' v' (nodes (set_prop i k v g) ! j) = has_prop l k' v' (nodes g ! j)"
  by (cases "j = i") (simp_all add: set_prop_def has_prop_def update_conv')

lemma match_nodes_set_prop:
  "k' \<noteq> k \<Longrightarrow> match_nodes l k' v' (set_prop i k v g) = match_nodes l k' v' g"
  unfolding match_nodes_def
  by (rule filter_cong) (simp_all add: has_prop_set_prop)

lemma edges_set_props [simp]: "edges (set_props x k v rows g) = edges g"
  unfolding set_props_def by (induction rows arbitrary: g) auto

lemma length_nodes_set_props [simp]: "length (nodes (set_props x k v rows g)) = length (nodes g)"
  unfolding set_props_def by (induction rows arbitrary: g) auto

lemma label_set_props [simp]: "map label (nodes (set_props x k v rows g)) = map label (nodes g)"
  unfolding set_props_def by (induction rows arbitrary: g) auto

lemma match_nodes_set_props:
  "k' \<noteq> k \<Longrightarrow> match_nodes l k' v' (set_props x k v rows g) = match_nodes l k' v' g"
  unfolding set_props_def by (induction rows arbitrary: g) (auto simp: match_nodes_set_prop)

lemma match_nodes_edges [simp]: "match_nodes l k v (g\<lparr>edges := es\<rparr>) = match_nodes l k v g"
  by (simp add: match_nodes_def)

lemma match_nodes_create_edges [simp]:
  "match_nodes l k v (create_edges e rows g) = match_nodes l k v g"
  by (simp add: match_nodes_def)

lemma match_nodes_append1:
  "match_nodes l k v (g\<lparr>nodes := nodes g @ [n]\<rparr>) =
     match_nodes l k v g @ (if has_prop l k v n then [length (nodes g)] else [])"
  by (auto simp: match_nodes_def nth_append intro: filter_cong)

lemma match_nodes_bound: "i \<in> set (match_nodes l k v g) \<Longrightarrow> i < length (nodes g)"
  by (simp add: match_nodes_def)

lemma match_nodes_has_prop: "i \<in> set (match_nodes l k v g) \<Longrightarrow> has_prop l k v (nodes g ! i)"
  by (simp add: match_nodes_def)

lemma match_nodes_append_none:
  "\<forall>n \<in> set ns. \<not> has_prop l k v n \<Longrightarrow>
     match_nodes l k v (g\<lparr>nodes := nodes g @ ns\<rparr>) = match_nodes l k v g"
proof -
  assume none: "\<forall>n \<in> set ns. \<not> has_prop l k v n"
  have split: "[0..<length (nodes g) + length ns] =
      [0..<length (nodes g)] @ [length (nodes g)..<length (nodes g) + length ns]"
    by (rule upt_add_eq_append) simp
  have new: "filter (\<lambda>i. has_prop l k v ((nodes g @ ns) ! i))
      [length (nodes g)..<length (nodes g) + length ns] = []"
    using none by (auto simp: filter_empty_conv nth_append)
  have old: "filter (\<lambda>i. has_prop l k v ((nodes g @ ns) ! i)) [0..<length (nodes g)] =
      filter (\<lambda>i. has_prop l k v (nodes g ! i)) [0..<length (nodes g)]"
    by (rule filter_cong) (simp_all add: nth_append)
  show ?thesis
    by (simp add: match_nodes_def split new old)
qed

lemma create_rows_snd:
  "snd (create_rows n rs g) = g\<lparr>nodes := nodes g @ replicate (length rs) n\<rparr>"
  by (induction rs arbitrary: g)
     (simp_all add: create_node_def split_def Let_def replicate_app_Cons_same)

lemma create_rows_fst: "map fst (fst (create_rows n rs g)) = rs"
  by (induction rs arbitrary: g) (simp_all add: split_def Let_def)

lemma merge_node_eq:
  "merge_node l k v g =
     (if match_nodes l k v g = []
      then ([length (nodes g)], g\<lparr>nodes := nodes g @ [\<lparr>label = l, props = [(k, v)]\<rparr>]\<rparr>)
      else (match_nodes l k v g, g))"
  by (simp add: merge_node_def create_node_def split: list.splits)

lemma has_prop_new [simp]: "has_prop l k v \<lparr>label = l, props = [(k, v)]\<rparr>"
  by (simp add: has_prop_def)

lemma match_after_merge:
  "match_nodes l k v (snd (merge_node l k v g)) = fst (merge_node l k v g)"
  by (simp add: merge_node_eq match_nodes_append1)

lemma merge_node_nonempty: "fst (merge_node l k v g) \<noteq> []"
  by (simp add: merge_node_eq)

lemma merge_node_idem:
  "merge_node l k v (snd (merge_node l k v g)) = merge_node l k v g"
proof -
  have "match_nodes l k v (snd (merge_node l k v g)) \<noteq> []"
    by (simp add: match_after_merge merge_node_nonempty)
  then have "merge_node l k v (snd (merge_node l k v g)) =
      (match_nodes l k v (snd (merge_node l k v g)), snd (merge_node l k v g))"
    by (subst merge_node_eq) simp
  then show ?thesis
    by (simp add: match_after_merge)
qed

lemma merge_rows_eq:
  "merge_rows l k v rs g =
     (if rs = [] then ([], g)
      else (concat (map (\<lambda>r. map (Pair r) (fst (merge_node l k v g))) rs),
            snd (merge_node l k v g)))"
proof (induction rs arbitrary: g)
  case Nil
  show ?case by simp
next
  case (Cons r rs)
  show ?case
    by (simp add: Cons.IH split_def Let_def merge_node_idem)
qed

lemma nodes_create_meeting:
  "nodes (create_meeting title type date g) =
     nodes g @ [\<lparr>label = Meeting,
        props = [(''title'', Str title), (''type'', Str type), (''timestamp'', Date date)]\<rparr>]"
  by (simp add: create_meeting_def create_node_def)

lemma edges_create_meeting: "edges (create_meeting title type date g) = edges g"
  by (simp add: create_meeting_def create_node_def)

lemma nodes_merge_node:
  "nodes (snd (merge_node l k v g)) =
     nodes g @ (if match_nodes l k v g = [] then [\<lparr>label = l, props = [(k, v)]\<rparr>] else [])"
  by (simp add: merge_node_eq)

lemma edges_merge_node: "edges (snd (merge_node l k v g)) = edges g"
  by (simp add: merge_node_eq)

lemma nodes_link_topic:
  "nodes (link_topic title topic g) =
     nodes g @ (if titled title g = [] \<or> named Topic topic g \<noteq> [] then []
                else [\<lparr>label = Topic, props = [(''name'', Str topic)]\<rparr>])"
  by (simp add: link_topic_def merge_rows_eq nodes_merge_node Let_def split_def)

lemma edges_link_topic:
  "edges (link_topic title topic g) =
     edges g @ map (\<lambda>(m, t). (m, DISCUSSES, t))
       (concat (map (\<lambda>m. map (Pair m) (fst (merge_node Topic ''name'' (Str topic) g)))
          (titled title g)))"
  by (simp add: link_topic_def merge_rows_eq edges_merge_node Let_def split_def)

lemma nodes_add_decision:
  "nodes (add_decision title decision g) =
     nodes g @ replicate (length (titled title g))
       \<lparr>label = Decision, props = [(''content'', Str decision)]\<rparr>"
  by (simp add: add_decision_def create_rows_snd Let_def split_def)

lemma edges_add_decision:
  "edges (add_decision title decision g) =
     edges g @ map (\<lambda>(m, d). (m, MADE_DECISION, d))
       (fst (create_rows \<lparr>label = Decision, props = [(''content'', Str decision)]\<rparr>
          (titled title g) g))"
  by (simp add: add_decision_def create_rows_snd Let_def split_def)

lemma create_rows_empty: "(fst (create_rows n rs g) = []) = (rs = [])"
  by (metis create_rows_fst map_is_Nil_conv)

lemma nodes_add_action_item:
  "nodes (add_action_item title item a g) =
     nodes g @ replicate (length (titled title g)) (action_item_node item)
       @ (if titled title g = [] \<or> named Person a g \<noteq> [] then []
          else [\<lparr>label = Person, props = [(''name'', Str a)]\<rparr>])"
proof -
  have keep: "named Person a (g\<lparr>nodes := nodes g @ replicate n (action_item_node item)\<rparr>)
      = named Person a g" for n
    by (rule match_nodes_append_none) (simp add: action_item_node_def has_prop_def)
  show ?thesis
    using keep
    by (simp add: add_action_item_def merge_rows_eq nodes_merge_node create_rows_snd
        create_rows_empty COALESCE_def action_item_node_def Let_def split_def)
qed

lemma run_all_neo4j:
  "\<forall>q \<in> set qs. \<forall>t item. q = AddActionItem t item \<longrightarrow> assignee item \<noteq> None \<Longrightarrow>
     run_all neo4j qs g = (Inr (), fold effect qs g)"
proof (induction qs arbitrary: g)
  case Nil
  show ?case by simp
next
  case (Cons q qs)
  have "neo4j q g = Inr (effect q g)"
    using Cons.prems by (cases q) (auto simp: effect_def)
  then show ?case
    using Cons by simp
qed

lemma filter_list_update_other:
  "i < length xs \<Longrightarrow> \<not> P (xs ! i) \<Longrightarrow> \<not> P y \<Longrightarrow> filter P (xs[i := y]) = filter P xs"
proof (induction xs arbitrary: i)
  case Nil
  then show ?case by simp
next
  case (Cons x xs)
  then show ?case by (cases i) simp_all
qed

lemma nth_label_set_prop:
  "j < length (nodes g) \<Longrightarrow> label (nodes (set_prop i k v g) ! j) = label (nodes g ! j)"
  by (metis label_set_prop length_nodes_set_prop nth_map)

lemma filter_label_set_prop:
  "i < length (nodes g) \<Longrightarrow> label (nodes g ! i) \<noteq> L \<Longrightarrow>
     filter (\<lambda>n. label n = L) (nodes (set_prop i k v g)) = filter (\<lambda>n. label n = L) (nodes g)"
  by (simp add: set_prop_def filter_list_update_other)

lemma filter_label_set_props:
  "\<forall>r \<in> set rows. x r < length (nodes g) \<and> label (nodes g ! x r) \<noteq> L \<Longrightarrow>
     filter (\<lambda>n. label n = L) (nodes (set_props x k v rows g)) = filter (\<lambda>n. label n = L) (nodes g)"
proof (induction rows arbitrary: g)
  case Nil
  show ?case by (simp add: set_props_def)
next
  case (Cons r rows)
  let ?g = "set_prop (x r) k v g"
  have "\<forall>r' \<in> set rows. x r' < length (nodes ?g) \<and> label (nodes ?g ! x r') \<noteq> L"
    using Cons.prems by (simp add: nth_label_set_prop)
  then have "filter (\<lambda>n. label n = L) (nodes (set_props x k v rows ?g)) =
      filter (\<lambda>n. label n = L) (nodes ?g)"
    by (rule Cons.IH)
  moreover have "filter (\<lambda>n. label n = L) (nodes ?g) = filter (\<lambda>n. label n = L) (nodes g)"
    using Cons.prems by (simp add: filter_label_set_prop)
  ultimately show ?case
    by (simp add: set_props_def)
qed

text \<open>The rows of the attendee statement: the meetings, each with the persons of that name.\<close>

lemma merge_node_ids:
  "p \<in> set (fst (merge_node l k v g)) \<Longrightarrow>
     p < length (nodes (snd (merge_node l k v g))) \<and> label (nodes (snd (merge_node l k v g)) ! p) = l"
  using match_nodes_bound [of p l k v "snd (merge_node l k v g)"]
        match_nodes_has_prop [of p l k v "snd (merge_node l k v g)"]
  by (simp add: match_after_merge has_prop_def)

lemma merge_rows_ids:
  "merge_rows l k v rs g = (rows, g') \<Longrightarrow> (r, p) \<in> set rows \<Longrightarrow>
     r \<in> set rs \<and> p < length (nodes g') \<and> label (nodes g' ! p) = l"
  using merge_node_ids [of p l k v g]
  by (auto simp: merge_rows_eq split: if_splits)

lemma nodes_merge_rows:
  "nodes (snd (merge_rows l k v rs g)) =
     nodes g @ (if rs = [] \<or> match_nodes l k v g \<noteq> [] then [] else [\<lparr>label = l, props = [(k, v)]\<rparr>])"
  by (simp add: merge_rows_eq nodes_merge_node)

lemma labels_add_attendee:
  "map label (nodes (add_attendee title a g)) =
     map label (nodes g) @ (if titled title g = [] \<or> named Person (name a) g \<noteq> [] then [] else [Person])"
  by (simp add: add_attendee_def Let_def split_def nodes_merge_rows)

lemma edges_merge_rows: "edges (snd (merge_rows l k v rs g)) = edges g"
  by (simp add: merge_rows_eq edges_merge_node)

lemma match_nodes_merge_rows_other:
  "l' \<noteq> l \<Longrightarrow> match_nodes l' k' v' (snd (merge_rows l k v rs g)) = match_nodes l' k' v' g"
proof -
  assume "l' \<noteq> l"
  then have "match_nodes l' k' v' (g\<lparr>nodes := nodes g @ [\<lparr>label = l, props = [(k, v)]\<rparr>]\<rparr>)
      = match_nodes l' k' v' g"
    by (intro match_nodes_append_none) (simp add: has_prop_def)
  then show ?thesis
    by (simp add: merge_rows_eq merge_node_eq)
qed

lemma titled_add_attendee: "titled t (add_attendee title a g) = titled t g"
  by (simp add: add_attendee_def Let_def split_def match_nodes_set_props
      match_nodes_merge_rows_other)

lemma filter_label_add_attendee:
  assumes "L \<noteq> Person"
  shows "filter (\<lambda>n. label n = L) (nodes (add_attendee title a g)) =
           filter (\<lambda>n. label n = L) (nodes g)"
proof -
  obtain rows g1 where m: "merge_rows Person ''name'' (Str (name a)) (titled title g) g = (rows, g1)"
    by (cases "merge_rows Person ''name'' (Str (name a)) (titled title g) g")
  let ?rows = "filter (\<lambda>(m, p). email a \<noteq> None) rows"
  have "\<forall>r \<in> set ?rows. (case r of (m, p) \<Rightarrow> p) < length (nodes g1)
      \<and> label (nodes g1 ! (case r of (m, p) \<Rightarrow> p)) \<noteq> L"
    using merge_rows_ids [OF m] assms by auto
  then have "filter (\<lambda>n. label n = L)
        (nodes (set_props (\<lambda>(m, p). p) ''email'' (Str (COALESCE (email a) [])) ?rows g1)) =
      filter (\<lambda>n. label n = L) (nodes g1)"
    by (rule filter_label_set_props)
  moreover have "filter (\<lambda>n. label n = L) (nodes g1) = filter (\<lambda>n. label n = L) (nodes g)"
    using nodes_merge_rows [of Person "''name''" "Str (name a)" "titled title g" g] m assms
    by simp
  ultimately show ?thesis
    using m by (simp add: add_attendee_def Let_def)
qed

lemma edges_add_attendee:
  "edges (add_attendee title a g) =
     edges g @ map (\<lambda>(m, p). (m, HAS_ATTENDEE, p))
       (filter (\<lambda>(m, p). email a \<noteq> None)
          (fst (merge_rows Person ''name'' (Str (name a)) (titled title g) g)))"
  by (simp add: add_attendee_def Let_def split_def edges_merge_rows)

lemma effect_simps:
  "effect (CreateMeeting t ty d) g = create_meeting t ty d g"
  "effect (LinkTopic t topic) g = link_topic t topic g"
  "effect (AddActionItem t item) g =
     (case assignee item of None \<Rightarrow> g | Some a \<Rightarrow> add_action_item t item a g)"
  "effect (AddDecision t dc) g = add_decision t dc g"
  "effect (AddAttendee t a) g = add_attendee t a g"
  by (simp_all add: effect_def split: option.splits)

lemma match_nodes_extend_none:
  "nodes g' = nodes g @ ns \<Longrightarrow> \<forall>n \<in> set ns. \<not> has_prop l k v n \<Longrightarrow>
     match_nodes l k v g' = match_nodes l k v g"
  using match_nodes_append_none [of ns l k v g] by (simp add: match_nodes_def)

lemma match_nodes_extend_mono:
  "nodes g' = nodes g @ ns \<Longrightarrow> i \<in> set (match_nodes l k v g) \<Longrightarrow> i \<in> set (match_nodes l k v g')"
  by (auto simp: match_nodes_def nth_append)

text \<open>The meetings of a title are changed by the first statement only.\<close>

lemma titled_create_meeting:
  "titled t (create_meeting title type date g) =
     titled t g @ (if t = title then [length (nodes g)] else [])"
  by (simp add: create_meeting_def create_node_def match_nodes_append1 has_prop_def)

lemma titled_effect: "linking T q \<Longrightarrow> titled t (effect q g) = titled t g"
proof (cases q)
  case (LinkTopic t' topic)
  show ?thesis
    unfolding LinkTopic effect_simps
    by (rule match_nodes_extend_none [OF nodes_link_topic]) (simp add: has_prop_def)
next
  case (AddActionItem t' item)
  assume "linking T q"
  then obtain a where a: "assignee item = Some a"
    using AddActionItem by auto
  have "titled t (add_action_item t' item a g) = titled t g"
    by (rule match_nodes_extend_none [OF nodes_add_action_item])
       (simp add: has_prop_def action_item_node_def)
  then show ?thesis
    by (simp add: AddActionItem effect_simps a)
next
  case (AddDecision t' dc)
  show ?thesis
    unfolding AddDecision effect_simps
    by (rule match_nodes_extend_none [OF nodes_add_decision]) (simp add: has_prop_def)
next
  case (AddAttendee t' a)
  show ?thesis
    by (simp add: AddAttendee effect_simps titled_add_attendee)
qed simp

lemma labels_effect: "map label (nodes (effect q g)) = map label (nodes g) @ new_labels q g"
  by (cases q)
     (simp_all add: effect_simps nodes_create_meeting nodes_link_topic nodes_add_action_item
        nodes_add_decision labels_add_attendee action_item_node_def split: option.splits)

lemma action_items_effect:
  "action_items_of (effect q g) = action_items_of g @ new_action_items q g"
  by (cases q)
     (simp_all add: action_items_of_def effect_simps nodes_create_meeting nodes_link_topic
        nodes_add_action_item nodes_add_decision filter_label_add_attendee action_item_node_def
        split: option.splits)

lemma store_queries_eq:
  "store_queries t ty d topics action_items decisions attendees =
     CreateMeeting t ty d # link_queries t topics action_items decisions attendees"
  by (simp add: store_queries_def link_queries_def)

lemma truthy_Some: "truthy v \<Longrightarrow> v \<noteq> None"
  by (cases v) (simp_all add: truthy_def)

lemma linking_link_queries:
  "q \<in> set (link_queries t topics action_items decisions attendees) \<Longrightarrow> linking t q"
  by (auto simp: link_queries_def dest: truthy_Some)

lemma linking_wf: "linking T q \<Longrightarrow> q = AddActionItem t item \<Longrightarrow> assignee item \<noteq> None"
  by auto

lemma store_in_neo4j_eq:
  "store_in_neo4j neo4j t ty d topics action_items decisions attendees g =
     (Inr (), fold effect (link_queries t topics action_items decisions attendees)
        (create_meeting t ty d g))"
proof -
  have "\<forall>q \<in> set (store_queries t ty d topics action_items decisions attendees).
      \<forall>t' item. q = AddActionItem t' item \<longrightarrow> assignee item \<noteq> None"
    using linking_link_queries [of _ t topics action_items decisions attendees]
    by (fastforce simp: store_queries_eq)
  then show ?thesis
    unfolding store_in_neo4j_def
    by (simp add: run_all_neo4j) (simp add: store_queries_eq effect_simps)
qed

lemma titled_fold:
  "\<forall>q \<in> set qs. linking T q \<Longrightarrow> titled t (fold effect qs g) = titled t g"
  by (induction qs arbitrary: g) (simp_all add: titled_effect [of T])

lemma new_action_items_cong:
  "\<forall>t. titled t g' = titled t g \<Longrightarrow> new_action_items q g' = new_action_items q g"
  by (cases q) (simp_all split: option.splits)

lemma action_items_fold:
  "\<forall>q \<in> set qs. linking T q \<Longrightarrow>
     action_items_of (fold effect qs g) =
       action_items_of g @ concat (map (\<lambda>q. new_action_items q g) qs)"
proof (induction qs arbitrary: g)
  case Nil
  show ?case by simp
next
  case (Cons q qs)
  have same: "new_action_items q' (effect q g) = new_action_items q' g" for q'
    using Cons.prems by (intro new_action_items_cong) (simp add: titled_effect [of T])
  show ?case
    using Cons by (simp add: action_items_effect same)
qed

lemma concat_map_Nil: "concat (map (\<lambda>x. []) xs) = []"
  by (induction xs) simp_all

lemma concat_map_filter:
  "concat (map f (filter P xs)) = concat (map (\<lambda>x. if P x then f x else []) xs)"
  by (induction xs) simp_all

lemma new_action_items_link_queries:
  "concat (map (\<lambda>q. new_action_items q g) (link_queries t topics action_items decisions attendees)) =
     concat (map (\<lambda>item. if description item \<noteq> [] \<and> truthy (assignee item)
                          then replicate (length (titled t g)) (action_item_node item) else [])
               action_items)"
  by (simp add: link_queries_def comp_def concat_map_Nil concat_map_filter)
     (intro arg_cong [where f = concat] map_cong refl,
      auto simp: truthy_def split: option.splits)

lemma edges_from_Nil [simp]: "edges_from ms n []"
  by (simp add: edges_from_def)

lemma edges_from_append [simp]:
  "edges_from ms n (es @ es') = (edges_from ms n es \<and> edges_from ms n es')"
  by (simp add: edges_from_def ball_Un)

lemma edges_from_mono: "edges_from ms n es \<Longrightarrow> n' \<le> n \<Longrightarrow> edges_from ms n' es"
  by (fastforce simp: edges_from_def split: if_splits)

lemma create_rows_ids:
  "(m, a) \<in> set (fst (create_rows n rs g)) \<Longrightarrow> m \<in> set rs \<and> length (nodes g) \<le> a"
proof (induction rs arbitrary: g)
  case Nil
  then show ?case by simp
next
  case (Cons r rs)
  from Cons.prems
  have "(m, a) = (r, length (nodes g))
      \<or> (m, a) \<in> set (fst (create_rows n rs (g\<lparr>nodes := nodes g @ [n]\<rparr>)))"
    by (simp add: create_node_def split_def Let_def)
  then show ?case
  proof
    assume "(m, a) = (r, length (nodes g))"
    then show ?thesis by simp
  next
    assume "(m, a) \<in> set (fst (create_rows n rs (g\<lparr>nodes := nodes g @ [n]\<rparr>)))"
    from Cons.IH [OF this] show ?thesis by simp
  qed
qed

lemma edges_add_action_item:
  "edges (add_action_item t item a g) =
     edges g
     @ map (\<lambda>(m, i). (m, HAS_ACTION_ITEM, i))
         (fst (create_rows (action_item_node item) (titled t g) g))
     @ map (\<lambda>((m, i), p). (i, ASSIGNED_TO, p))
         (fst (merge_rows Person ''name'' (Str a)
            (fst (create_rows (action_item_node item) (titled t g) g))
            (create_edges (\<lambda>(m, i). (m, HAS_ACTION_ITEM, i))
               (fst (create_rows (action_item_node item) (titled t g) g))
               (snd (create_rows (action_item_node item) (titled t g) g)))))"
  by (simp add: add_action_item_def Let_def split_def edges_merge_rows COALESCE_def
      action_item_node_def create_rows_snd)

lemma edges_from_link_topic:
  "edges_from (titled t g) n
     (map (\<lambda>(m, x). (m, DISCUSSES, x))
        (concat (map (\<lambda>m. map (Pair m) xs) (titled t g))))"
  by (auto simp: edges_from_def)

lemma edges_from_add_decision:
  "edges_from (titled t g) n
     (map (\<lambda>(m, x). (m, MADE_DECISION, x)) (fst (create_rows nd (titled t g) g)))"
  using create_rows_ids [of _ _ nd "titled t g" g]
  by (auto simp: edges_from_def)

lemma edges_from_add_attendee:
  "edges_from (titled t g) n
     (map (\<lambda>(m, p). (m, HAS_ATTENDEE, p))
        (filter P (fst (merge_rows l k v (titled t g) g))))"
  using merge_rows_ids [of l k v "titled t g" g]
  by (auto simp: edges_from_def) (metis prod.collapse)

lemma edges_from_add_action_item:
  "edges_from (titled t g) (length (nodes g))
     (map (\<lambda>(m, i). (m, HAS_ACTION_ITEM, i)) (fst (create_rows nd (titled t g) g))
      @ map (\<lambda>((m, i), p). (i, ASSIGNED_TO, p))
          (fst (merge_rows l k v (fst (create_rows nd (titled t g) g)) g2)))"
proof -
  have "edges_from (titled t g) (length (nodes g))
      (map (\<lambda>(m, i). (m, HAS_ACTION_ITEM, i)) (fst (create_rows nd (titled t g) g)))"
    using create_rows_ids [of _ _ nd "titled t g" g]
    by (auto simp: edges_from_def)
  moreover have "edges_from (titled t g) (length (nodes g))
      (map (\<lambda>((m, i), p). (i, ASSIGNED_TO, p))
          (fst (merge_rows l k v (fst (create_rows nd (titled t g) g)) g2)))"
  proof -
    have "length (nodes g) \<le> i"
      if "((m, i), p) \<in> set (fst (merge_rows l k v (fst (create_rows nd (titled t g) g)) g2))"
      for m i p
    proof -
      have "(m, i) \<in> set (fst (create_rows nd (titled t g) g))"
        using merge_rows_ids [of l k v "fst (create_rows nd (titled t g) g)" g2 _ _ "(m, i)" p] that
        by (metis prod.collapse)
      then show ?thesis
        using create_rows_ids [of m i nd "titled t g" g] by simp
    qed
    then show ?thesis
      by (auto simp: edges_from_def)
  qed
  ultimately show ?thesis
    by simp
qed

lemma edges_effect:
  "linking T q \<Longrightarrow>
     \<exists>es. edges (effect q g) = edges g @ es \<and> edges_from (titled T g) (length (nodes g)) es"
proof (cases q)
  case (CreateMeeting t ty d)
  assume "linking T q"
  then show ?thesis using CreateMeeting by simp
next
  case (LinkTopic t topic)
  assume "linking T q"
  then show ?thesis
    using LinkTopic edges_from_link_topic
    by (simp add: effect_simps edges_link_topic)
next
  case (AddActionItem t item)
  assume "linking T q"
  then obtain a where "assignee item = Some a" and "t = T"
    using AddActionItem by auto
  then show ?thesis
    using AddActionItem edges_from_add_action_item
    by (simp add: effect_simps edges_add_action_item)
next
  case (AddDecision t dc)
  assume "linking T q"
  then show ?thesis
    using AddDecision edges_from_add_decision
    by (simp add: effect_simps edges_add_decision)
next
  case (AddAttendee t a)
  assume "linking T q"
  then show ?thesis
    using AddAttendee edges_from_add_attendee
    by (simp add: effect_simps edges_add_attendee)
qed

lemma length_nodes_effect: "length (nodes g) \<le> length (nodes (effect q g))"
proof -
  have "length (map label (nodes (effect q g))) = length (map label (nodes g) @ new_labels q g)"
    by (simp only: labels_effect)
  then show ?thesis by simp
qed

lemma edges_fold:
  "\<forall>q \<in> set qs. linking T q \<Longrightarrow>
     \<exists>es. edges (fold effect qs g) = edges g @ es \<and> edges_from (titled T g) (length (nodes g)) es"
proof (induction qs arbitrary: g)
  case Nil
  show ?case by simp
next
  case (Cons q qs)
  let ?g = "effect q g"
  obtain es1 where es1: "edges ?g = edges g @ es1" "edges_from (titled T g) (length (nodes g)) es1"
    using edges_effect [of T q g] Cons.prems by auto
  obtain es2 where es2: "edges (fold effect qs ?g) = edges ?g @ es2"
      "edges_from (titled T ?g) (length (nodes ?g)) es2"
    using Cons.IH [of ?g] Cons.prems by auto
  have "edges_from (titled T g) (length (nodes g)) es2"
    using es2(2) Cons.prems edges_from_mono [OF _ length_nodes_effect]
    by (simp add: titled_effect [of T])
  then show ?case
    using es1 es2 by simp
qed

lemma match_nonempty_iff:
  "(match_nodes l k v g \<noteq> []) = (\<exists>n \<in> set (nodes g). has_prop l k v n)"
proof
  assume "match_nodes l k v g \<noteq> []"
  then obtain i where "i < length (nodes g)" "has_prop l k v (nodes g ! i)"
    by (auto simp: match_nodes_def filter_empty_conv)
  then show "\<exists>n \<in> set (nodes g). has_prop l k v n"
    using nth_mem by blast
next
  assume "\<exists>n \<in> set (nodes g). has_prop l k v n"
  then obtain i where "i < length (nodes g)" "has_prop l k v (nodes g ! i)"
    by (auto simp: in_set_conv_nth)
  then show "match_nodes l k v g \<noteq> []"
    by (auto simp: match_nodes_def filter_empty_conv)
qed

lemma known_extend:
  "nodes g' = nodes g @ ns \<Longrightarrow> match_nodes l k v g \<noteq> [] \<Longrightarrow> match_nodes l k v g' \<noteq> []"
  by (auto simp: match_nonempty_iff)

lemma known_add_attendee:
  assumes "named l n g \<noteq> []"
  shows "named l n (add_attendee t a g) \<noteq> []"
proof -
  have "named l n (snd (merge_rows Person ''name'' (Str (name a)) (titled t g) g)) \<noteq> []"
    using assms nodes_merge_rows by (rule known_extend [rotated])
  then show ?thesis
    by (simp add: add_attendee_def Let_def split_def match_nodes_set_props)
qed

lemma known_effect: "named l n g \<noteq> [] \<Longrightarrow> named l n (effect q g) \<noteq> []"
proof (cases q)
  case (CreateMeeting t ty d)
  assume "named l n g \<noteq> []"
  then show ?thesis
    unfolding CreateMeeting effect_simps by (rule known_extend [OF nodes_create_meeting])
next
  case (LinkTopic t topic)
  assume "named l n g \<noteq> []"
  then show ?thesis
    unfolding LinkTopic effect_simps by (rule known_extend [OF nodes_link_topic])
next
  case (AddActionItem t item)
  assume k: "named l n g \<noteq> []"
  show ?thesis
  proof (cases "assignee item")
    case None
    then show ?thesis using k by (simp add: AddActionItem effect_simps)
  next
    case (Some a)
    have "named l n (add_action_item t item a g) \<noteq> []"
      using k by (rule known_extend [OF nodes_add_action_item])
    then show ?thesis by (simp add: AddActionItem effect_simps Some)
  qed
next
  case (AddDecision t dc)
  assume "named l n g \<noteq> []"
  then show ?thesis
    unfolding AddDecision effect_simps by (rule known_extend [OF nodes_add_decision])
next
  case (AddAttendee t a)
  assume "named l n g \<noteq> []"
  then show ?thesis
    unfolding AddAttendee effect_simps by (rule known_add_attendee)
qed

lemma targets_known_effect: "targets_known q g \<Longrightarrow> targets_known q (effect q' g)"
  by (cases q) (auto simp: known_effect split: option.splits)

lemma targets_known_fold: "targets_known q g \<Longrightarrow> targets_known q (fold effect qs g)"
  by (induction qs arbitrary: g) (simp_all add: targets_known_effect)

lemma known_new:
  "nodes g' = nodes g @ ns \<Longrightarrow> \<lparr>label = l, props = [(k, v)]\<rparr> \<in> set ns \<Longrightarrow>
     match_nodes l k v g' \<noteq> []"
proof -
  assume "nodes g' = nodes g @ ns" and "\<lparr>label = l, props = [(k, v)]\<rparr> \<in> set ns"
  then have "\<lparr>label = l, props = [(k, v)]\<rparr> \<in> set (nodes g')"
    by simp
  then show ?thesis
    unfolding match_nonempty_iff using has_prop_new by blast
qed

lemma known_after_link_topic:
  assumes "titled t g \<noteq> []"
  shows "named Topic topic (link_topic t topic g) \<noteq> []"
proof (cases "named Topic topic g = []")
  case True
  then have "nodes (link_topic t topic g) =
      nodes g @ [\<lparr>label = Topic, props = [(''name'', Str topic)]\<rparr>]"
    using assms by (simp add: nodes_link_topic)
  then show ?thesis
    by (rule known_new) simp
next
  case False
  then show ?thesis
    by (rule known_extend [OF nodes_link_topic])
qed

lemma known_after_add_action_item:
  assumes "titled t g \<noteq> []"
  shows "named Person a (add_action_item t item a g) \<noteq> []"
proof (cases "named Person a g = []")
  case True
  then have "nodes (add_action_item t item a g) =
      nodes g @ (replicate (length (titled t g)) (action_item_node item)
        @ [\<lparr>label = Person, props = [(''name'', Str a)]\<rparr>])"
    using assms by (simp add: nodes_add_action_item)
  then show ?thesis
    by (rule known_new) simp
next
  case False
  then show ?thesis
    by (rule known_extend [OF nodes_add_action_item])
qed

lemma known_after_add_attendee:
  assumes "titled t g \<noteq> []"
  shows "named Person (name a) (add_attendee t a g) \<noteq> []"
proof -
  have "named Person (name a) (snd (merge_rows Person ''name'' (Str (name a)) (titled t g) g)) \<noteq> []"
    using assms by (simp add: merge_rows_eq match_after_merge merge_node_nonempty)
  then show ?thesis
    by (simp add: add_attendee_def Let_def split_def match_nodes_set_props)
qed

lemma targets_known_after:
  "linking T q \<Longrightarrow> titled T g \<noteq> [] \<Longrightarrow> targets_known q (effect q g)"
  by (cases q)
     (auto simp: effect_simps known_after_link_topic known_after_add_action_item
        known_after_add_attendee)

lemma targets_known_run:
  "\<forall>q \<in> set qs. linking T q \<Longrightarrow> titled T g \<noteq> [] \<Longrightarrow> q \<in> set qs \<Longrightarrow>
     targets_known q (fold effect qs g)"
proof (induction qs arbitrary: g)
  case Nil
  then show ?case by simp
next
  case (Cons q' qs)
  have t: "titled T (effect q' g) \<noteq> []"
    using Cons.prems by (simp add: titled_effect [of T])
  show ?case
  proof (cases "q \<in> set qs")
    case True
    then show ?thesis using Cons t by simp
  next
    case False
    then have "q = q'" using Cons.prems by simp
    then have "targets_known q (effect q' g)"
      using Cons.prems targets_known_after [of T q g] by simp
    then show ?thesis
      by (simp add: targets_known_fold)
  qed
qed

lemma new_labels_known:
  "linking T q \<Longrightarrow> targets_known q g \<Longrightarrow> new_labels q g = core_labels q (length (titled T g))"
  by (cases q) auto

lemma labels_fold_known:
  "\<forall>q \<in> set qs. linking T q \<and> targets_known q g \<Longrightarrow>
     map label (nodes (fold effect qs g)) =
       map label (nodes g) @ concat (map (\<lambda>q. core_labels q (length (titled T g))) qs)"
proof (induction qs arbitrary: g)
  case Nil
  show ?case by simp
next
  case (Cons q qs)
  let ?g = "effect q g"
  have "\<forall>q' \<in> set qs. linking T q' \<and> targets_known q' ?g"
    using Cons.prems by (simp add: targets_known_effect)
  then have "map label (nodes (fold effect qs ?g)) =
      map label (nodes ?g) @ concat (map (\<lambda>q. core_labels q (length (titled T ?g))) qs)"
    by (rule Cons.IH)
  moreover have "titled T ?g = titled T g"
    using Cons.prems by (simp add: titled_effect [of T])
  moreover have "map label (nodes ?g) = map label (nodes g) @ core_labels q (length (titled T g))"
    using Cons.prems by (simp add: labels_effect new_labels_known [of T])
  ultimately show ?case
    by simp
qed

lemma count_label_labels:
  "count_label l g = length (filter (\<lambda>x. x = l) (map label (nodes g)))"
  by (simp add: count_label_def filter_map comp_def)

lemma count_core_labels:
  "length (filter (\<lambda>x. x = l) (concat (map (\<lambda>q. core_labels q k) qs))) =
     (if l = ActionItem then k * length (filter (\<lambda>q. \<exists>t item. q = AddActionItem t item) qs)
      else if l = Decision then k * length (filter (\<lambda>q. \<exists>t dc. q = AddDecision t dc) qs)
      else 0)"
proof (induction qs)
  case Nil
  show ?case by simp
next
  case (Cons q qs)
  then show ?case by (cases q) auto
qed

lemma count_items_link_queries:
  "length (filter (\<lambda>q. \<exists>t item. q = AddActionItem t item)
      (link_queries t topics action_items decisions attendees)) =
     length (filter (\<lambda>item. description item \<noteq> [] \<and> truthy (assignee item)) action_items)"
  by (simp add: link_queries_def filter_map comp_def)

lemma count_decisions_link_queries:
  "length (filter (\<lambda>q. \<exists>t dc. q = AddDecision t dc)
      (link_queries t topics action_items decisions attendees)) =
     length (filter (\<lambda>decision. decision \<noteq> []) decisions)"
  by (simp add: link_queries_def filter_map comp_def)

lemma edges_from_Suc:
  "edges_from ms (Suc n) es =
     (\<forall>(a, rel, b) \<in> set es. if rel = ASSIGNED_TO then n < a else a \<in> set ms)"
  by (simp add: edges_from_def Suc_le_eq split_def cong: if_cong)

lemma length_nodes_fold: "length (nodes g) \<le> length (nodes (fold effect qs g))"
proof (induction qs arbitrary: g)
  case Nil
  show ?case by simp
next
  case (Cons q qs)
  have "length (nodes g) \<le> length (nodes (effect q g))"
    by (rule length_nodes_effect)
  also have "\<dots> \<le> length (nodes (fold effect qs (effect q g)))"
    by (rule Cons.IH)
  finally show ?case by simp
qed

lemma count_meetings_effect: "linking T q \<Longrightarrow> count_label Meeting (effect q g) = count_label Meeting g"
  by (cases q) (auto simp: count_label_labels labels_effect split: option.splits)

lemma count_meetings_fold:
  "\<forall>q \<in> set qs. linking T q \<Longrightarrow> count_label Meeting (fold effect qs g) = count_label Meeting g"
  by (induction qs arbitrary: g) (simp_all add: count_meetings_effect [of T])

lemma star_greedy_iff:
  "s' \<in> set (star_greedy p s) \<longleftrightarrow> (\<exists>w. s = w @ s' \<and> list_all p w)"
proof (induction s)
  case Nil
  show ?case by auto
next
  case (Cons c cs)
  show ?case
  proof
    assume "s' \<in> set (star_greedy p (c # cs))"
    then have "s' = c # cs \<or> (p c \<and> s' \<in> set (star_greedy p cs))"
      by (auto split: if_splits)
    then show "\<exists>w. c # cs = w @ s' \<and> list_all p w"
    proof
      assume "s' = c # cs"
      then have "c # cs = [] @ s' \<and> list_all p []" by simp
      then show ?thesis by blast
    next
      assume a: "p c \<and> s' \<in> set (star_greedy p cs)"
      then obtain w where "cs = w @ s'" "list_all p w"
        using Cons.IH by auto
      then have "c # cs = (c # w) @ s' \<and> list_all p (c # w)"
        using a by simp
      then show ?thesis by blast
    qed
  next
    assume "\<exists>w. c # cs = w @ s' \<and> list_all p w"
    then obtain w where w: "c # cs = w @ s'" "list_all p w" by auto
    show "s' \<in> set (star_greedy p (c # cs))"
    proof (cases w)
      case Nil
      then show ?thesis using w by auto
    next
      case (Cons x xs)
      then have "p c" "cs = xs @ s'" "list_all p xs"
        using w by auto
      then have "s' \<in> set (star_greedy p cs)"
        using Cons.IH by auto
      then show ?thesis
        using \<open>p c\<close> by simp
    qed
  qed
qed

lemma rep_greedy_iff:
  "s' \<in> set (rep_greedy n p s) \<longleftrightarrow> (\<exists>w. s = w @ s' \<and> list_all p w \<and> n \<le> length w)"
proof (induction n p s rule: rep_greedy.induct)
  case (1 p s)
  show ?case by (simp add: star_greedy_iff)
next
  case (2 n p)
  show ?case by simp
next
  case (3 n p c cs)
  show ?case
  proof
    assume "s' \<in> set (rep_greedy (Suc n) p (c # cs))"
    then have pc: "p c" and "s' \<in> set (rep_greedy n p cs)"
      by (auto split: if_splits)
    then obtain w where "cs = w @ s'" "list_all p w" "n \<le> length w"
      using 3 by auto
    then have "c # cs = (c # w) @ s' \<and> list_all p (c # w) \<and> Suc n \<le> length (c # w)"
      using pc by simp
    then show "\<exists>w. c # cs = w @ s' \<and> list_all p w \<and> Suc n \<le> length w"
      by blast
  next
    assume "\<exists>w. c # cs = w @ s' \<and> list_all p w \<and> Suc n \<le> length w"
    then obtain w where w: "c # cs = w @ s'" "list_all p w" "Suc n \<le> length w" by auto
    then obtain x xs where "w = x # xs" by (cases w) auto
    then have "p c" "cs = xs @ s'" "list_all p xs" "n \<le> length xs"
      using w by auto
    then show "s' \<in> set (rep_greedy (Suc n) p (c # cs))"
      using 3 by auto
  qed
qed

text \<open>Every match leaves a suffix of the input.\<close>

lemma matches_suffix: "(s', g') \<in> set (matches f r s g) \<Longrightarrow> suffix s' s"
proof (induction r arbitrary: s g s' g')
  case Eps
  then show ?case by simp
next
  case (Lit l)
  then show ?case by (auto simp: suffix_drop split: if_splits)
next
  case (Cls p)
  then show ?case by (auto simp: suffix_Cons split: list.splits if_splits)
next
  case (Seq a b)
  then obtain s1 g1 where "(s1, g1) \<in> set (matches f a s g)" "(s', g') \<in> set (matches f b s1 g1)"
    by auto
  then show ?case
    using Seq.IH suffix_order.trans by blast
next
  case (Alt a b)
  then show ?case by auto
next
  case (Opt a)
  then show ?case by auto
next
  case (Rep n p)
  then show ?case by (auto simp: rep_greedy_iff suffix_def)
next
  case (LazyStar p)
  have "x \<in> set (star_lazy p t) \<Longrightarrow> suffix x t" for x t
    by (induction t) (auto simp: suffix_Cons split: if_splits)
  then show ?case using LazyStar by auto
next
  case (Group i a)
  then show ?case by auto
qed




































section \<open>Results\<close>

lemma lower_ascii_example:
  "lower ''This is urgent and also minor'' = ''this is urgent and also minor''"
  by code_simp

lemma lower_capitals: "lower ''URGENT fix'' = ''urgent fix''"
  by code_simp

lemma priority_examples:
  "determine_priority ''URGENT fix'' = ''high''"
  "determine_priority ''Low effort, but Important'' = ''high''"
  "determine_priority ''A Minor point'' = ''low''"
  "determine_priority ''Fix the parser'' = ''medium''"
  by code_simp+

text \<open>
  C7. For every sentence the priority computed by \<^verbatim>\<open>_determine_priority\<close> is the label
  of the first of the keyword sets high, medium, low (in this order) one of whose keywords
  occurs in the case-folded sentence, and "medium" when none occurs; the sentence
  "This is urgent and also minor" is classified "high". The case is folded before the
  test: "URGENT fix" is folded to "urgent fix" and classified "high", "Low effort, but
  Important" is classified "high" and "A Minor point" "low"; "Fix the parser", which holds
  no keyword, is classified "medium".
\<close>

theorem determine_priority_first_match:
  "determine_priority sentence = priority_spec sentence
   \<and> determine_priority ''This is urgent and also minor'' = ''high''
   \<and> lower ''URGENT fix'' = ''urgent fix''
   \<and> determine_priority ''URGENT fix'' = ''high''
   \<and> determine_priority ''Low effort, but Important'' = ''high''
   \<and> determine_priority ''A Minor point'' = ''low''
   \<and> determine_priority ''Fix the parser'' = ''medium''"
proof (intro conjI)
  show "determine_priority sentence = priority_spec sentence"
    by (simp add: determine_priority_def priority_spec_def priority_indicators_def
        matches_set_def high_keywords_def medium_keywords_def low_keywords_def)
next
  have "sublist ''urgent'' ''this is urgent and also minor''"
    by code_simp
  then show "determine_priority ''This is urgent and also minor'' = ''high''"
    by (simp add: determine_priority_def priority_indicators_def lower_ascii_example)
qed (rule lower_capitals priority_examples)+

text \<open>
  C1. An attendee with a name is merged as a Person node by name whether or not an email
  was resolved, and the email is set only when one was resolved; but the has-attendee edge
  is created only when an email was resolved. For the attendee \<open>Bob\<close> without an email the
  call leaves the Person node and no edge; with an email it leaves the edge as well.
\<close>

theorem attendee_without_email_not_linked:
  "store_in_neo4j neo4j ''Standup'' ''Daily'' ex_date [] [] []
       [\<lparr>name = ''Bob'', email = None\<rparr>] empty_graph =
     (Inr (),
      \<lparr>nodes = [\<lparr>label = Meeting,
                 props = [(''title'', Str ''Standup''), (''type'', Str ''Daily''),
                          (''timestamp'', Date (Datetime 2025 2 1 9 0 0))]\<rparr>,
                \<lparr>label = Person, props = [(''name'', Str ''Bob'')]\<rparr>],
       edges = []\<rparr>)
   \<and> store_in_neo4j neo4j ''Standup'' ''Daily'' ex_date [] [] []
       [\<lparr>name = ''Bob'', email = Some ''bob@example.com''\<rparr>] empty_graph =
     (Inr (),
      \<lparr>nodes = [\<lparr>label = Meeting,
                 props = [(''title'', Str ''Standup''), (''type'', Str ''Daily''),
                          (''timestamp'', Date (Datetime 2025 2 1 9 0 0))]\<rparr>,
                \<lparr>label = Person,
                 props = [(''name'', Str ''Bob''), (''email'', Str ''bob@example.com'')]\<rparr>],
       edges = [(0, HAS_ATTENDEE, 1)]\<rparr>)"
  by code_simp

lemma ex_first_ingestion:
  "store_in_neo4j neo4j ''Standup'' ''Daily'' ex_date [''budget''] [] [] [] empty_graph =
     (Inr (),
      \<lparr>nodes = [\<lparr>label = Meeting,
                 props = [(''title'', Str ''Standup''), (''type'', Str ''Daily''),
                          (''timestamp'', Date (Datetime 2025 2 1 9 0 0))]\<rparr>,
                \<lparr>label = Topic, props = [(''name'', Str ''budget'')]\<rparr>],
       edges = [(0, DISCUSSES, 1)]\<rparr>)"
  by code_simp

lemma ex_second_ingestion:
  "store_in_neo4j neo4j ''Standup'' ''Daily'' ex_date [''budget''] [] [] []
       \<lparr>nodes = [\<lparr>label = Meeting,
                 props = [(''title'', Str ''Standup''), (''type'', Str ''Daily''),
                          (''timestamp'', Date (Datetime 2025 2 1 9 0 0))]\<rparr>,
                \<lparr>label = Topic, props = [(''name'', Str ''budget'')]\<rparr>],
        edges = [(0, DISCUSSES, 1)]\<rparr> =
     (Inr (),
      \<lparr>nodes = [\<lparr>label = Meeting,
                 props = [(''title'', Str ''Standup''), (''type'', Str ''Daily''),
                          (''timestamp'', Date (Datetime 2025 2 1 9 0 0))]\<rparr>,
                \<lparr>label = Topic, props = [(''name'', Str ''budget'')]\<rparr>,
                \<lparr>label = Meeting,
                 props = [(''title'', Str ''Standup''), (''type'', Str ''Daily''),
                          (''timestamp'', Date (Datetime 2025 2 1 9 0 0))]\<rparr>],
       edges = [(0, DISCUSSES, 1), (0, DISCUSSES, 1), (2, DISCUSSES, 1)]\<rparr>)"
  by code_simp

text \<open>
  C2. With the store available, one ingestion call keeps the edges that were there and
  adds only edges of two kinds: an assigned-to edge starts at a node the call created
  after its Meeting node (an action item); every other new edge (discuss, has-action-item,
  made-decision, has-attendee) starts at a Meeting node whose title is the title of the
  call. The Meeting nodes of that title are the ones that were there before and the fresh
  one, so a Meeting node with another title receives no edge.
\<close>

theorem new_edges_start_at_meetings_of_title:
  assumes "store_in_neo4j neo4j t ty d topics action_items decisions attendees g = (r, g')"
  shows "take (length (edges g)) (edges g') = edges g
     \<and> (\<forall>(a, rel, b) \<in> set (drop (length (edges g)) (edges g')).
          if rel = ASSIGNED_TO then length (nodes g) < a
          else a \<in> set (match_nodes Meeting ''title'' (Str t) g'))
     \<and> match_nodes Meeting ''title'' (Str t) g' =
         match_nodes Meeting ''title'' (Str t) g @ [length (nodes g)]"
proof -
  let ?qs = "link_queries t topics action_items decisions attendees"
  let ?g1 = "create_meeting t ty d g"
  from assms have g': "g' = fold effect ?qs ?g1"
    by (simp add: store_in_neo4j_eq)
  have lk: "\<forall>q \<in> set ?qs. linking t q"
    using linking_link_queries by blast
  obtain es where es: "edges g' = edges ?g1 @ es"
      "edges_from (titled t ?g1) (length (nodes ?g1)) es"
    using edges_fold [OF lk, of ?g1] g' by auto
  have titled: "titled t g' = titled t g @ [length (nodes g)]"
    using titled_fold [OF lk, of t ?g1] by (simp add: g' titled_create_meeting)
  have "edges_from (titled t g') (Suc (length (nodes g))) es"
    using es(2) by (simp add: titled titled_create_meeting nodes_create_meeting)
  then have new: "\<forall>(a, rel, b) \<in> set es.
      if rel = ASSIGNED_TO then length (nodes g) < a else a \<in> set (titled t g')"
    by (simp only: edges_from_Suc)
  have old: "edges g' = edges g @ es"
    using es(1) by (simp add: edges_create_meeting)
  show ?thesis
  proof (intro conjI)
    show "take (length (edges g)) (edges g') = edges g"
      by (simp add: old)
    show "\<forall>(a, rel, b) \<in> set (drop (length (edges g)) (edges g')).
        if rel = ASSIGNED_TO then length (nodes g) < a else a \<in> set (titled t g')"
      using new by (simp add: old)
    show "titled t g' = titled t g @ [length (nodes g)]"
      by (rule titled)
  qed
qed

theorem new_edges_start_at_meetings_of_title_witness:
  "take 1 (edges (snd (store_in_neo4j neo4j ''Standup'' ''Daily'' ex_date [''budget''] [] [] []
       \<lparr>nodes = [\<lparr>label = Meeting,
                 props = [(''title'', Str ''Standup''), (''type'', Str ''Daily''),
                          (''timestamp'', Date (Datetime 2025 2 1 9 0 0))]\<rparr>,
                \<lparr>label = Topic, props = [(''name'', Str ''budget'')]\<rparr>],
        edges = [(0, DISCUSSES, 1)]\<rparr>))) = [(0, DISCUSSES, 1)]
   \<and> match_nodes Meeting ''title'' (Str ''Standup'')
       (snd (store_in_neo4j neo4j ''Standup'' ''Daily'' ex_date [''budget''] [] [] []
       \<lparr>nodes = [\<lparr>label = Meeting,
                 props = [(''title'', Str ''Standup''), (''type'', Str ''Daily''),
                          (''timestamp'', Date (Datetime 2025 2 1 9 0 0))]\<rparr>,
                \<lparr>label = Topic, props = [(''name'', Str ''budget'')]\<rparr>],
        edges = [(0, DISCUSSES, 1)]\<rparr>)) = [0, 2]"
  using new_edges_start_at_meetings_of_title [where t = "''Standup''" and ty = "''Daily''"
      and d = ex_date and topics = "[''budget'']" and action_items = "[]" and decisions = "[]"
      and attendees = "[]" and g = "\<lparr>nodes = [\<lparr>label = Meeting,
                 props = [(''title'', Str ''Standup''), (''type'', Str ''Daily''),
                          (''timestamp'', Date (Datetime 2025 2 1 9 0 0))]\<rparr>,
                \<lparr>label = Topic, props = [(''name'', Str ''budget'')]\<rparr>],
        edges = [(0, DISCUSSES, 1)]\<rparr>", OF surjective_pairing]
  by (simp add: match_nodes_def has_prop_def)

text \<open>The claim as stated fails: the second ingestion under the same title adds a
  discuss edge to node 0, the Meeting node of the first ingestion, beside the edge of its
  own Meeting node 2.\<close>

theorem earlier_meeting_receives_edges:
  "edges (snd (store_in_neo4j neo4j ''Standup'' ''Daily'' ex_date [''budget''] [] [] []
       (snd (store_in_neo4j neo4j ''Standup'' ''Daily'' ex_date [''budget''] [] [] [] empty_graph)))) =
     [(0, DISCUSSES, 1), (0, DISCUSSES, 1), (2, DISCUSSES, 1)]"
  by (simp only: ex_first_ingestion ex_second_ingestion snd_conv graph.select_convs)

text \<open>
  C6. With the store available, ingesting the same record twice under the same title
  leaves the numbers of Topic nodes and of Person nodes after the second run as they were
  after the first; each run adds exactly one Meeting node, the two being distinct nodes of
  that title; the numbers of ActionItem and of Decision nodes never shrink, and grow on the
  second run exactly when the record holds an action item with a non-empty description and
  a resolved assignee, respectively a non-empty decision.
\<close>

theorem reingestion_node_counts:
  assumes "store_in_neo4j neo4j t ty d topics action_items decisions attendees g0 = (r1, g1)"
      and "store_in_neo4j neo4j t ty d topics action_items decisions attendees g1 = (r2, g2)"
  shows "count_label Topic g2 = count_label Topic g1
     \<and> count_label Person g2 = count_label Person g1
     \<and> count_label Meeting g1 = count_label Meeting g0 + 1
     \<and> count_label Meeting g2 = count_label Meeting g1 + 1
     \<and> match_nodes Meeting ''title'' (Str t) g2 =
         match_nodes Meeting ''title'' (Str t) g0 @ [length (nodes g0), length (nodes g1)]
     \<and> length (nodes g0) < length (nodes g1)
     \<and> count_label ActionItem g1 \<le> count_label ActionItem g2
     \<and> (count_label ActionItem g1 < count_label ActionItem g2) =
         (filter (\<lambda>item. description item \<noteq> [] \<and> truthy (assignee item)) action_items \<noteq> [])
     \<and> count_label Decision g1 \<le> count_label Decision g2
     \<and> (count_label Decision g1 < count_label Decision g2) =
         (filter (\<lambda>decision. decision \<noteq> []) decisions \<noteq> [])"
proof -
  let ?qs = "link_queries t topics action_items decisions attendees"
  let ?m0 = "create_meeting t ty d g0"
  let ?m1 = "create_meeting t ty d g1"
  from assms have g1: "g1 = fold effect ?qs ?m0" and g2: "g2 = fold effect ?qs ?m1"
    by (simp_all add: store_in_neo4j_eq)
  have lk: "\<forall>q \<in> set ?qs. linking t q"
    using linking_link_queries by blast
  have t1: "titled t g1 = titled t g0 @ [length (nodes g0)]"
    using titled_fold [OF lk, of t ?m0] by (simp add: g1 titled_create_meeting)
  have t2: "titled t g2 = titled t g1 @ [length (nodes g1)]"
    using titled_fold [OF lk, of t ?m1] by (simp add: g2 titled_create_meeting)
  have "length (nodes ?m0) \<le> length (nodes g1)"
    unfolding g1 by (rule length_nodes_fold)
  then have fresh: "length (nodes g0) < length (nodes g1)"
    by (simp add: nodes_create_meeting)
  have "\<forall>q \<in> set ?qs. targets_known q g1"
    unfolding g1 using targets_known_run [OF lk, of ?m0] by (simp add: titled_create_meeting)
  then have known: "\<forall>q \<in> set ?qs. linking t q \<and> targets_known q ?m1"
    using lk targets_known_effect [of _ g1 "CreateMeeting t ty d"] by (simp add: effect_simps)
  have l2: "map label (nodes g2) = map label (nodes g1) @ Meeting #
      concat (map (\<lambda>q. core_labels q (length (titled t ?m1))) ?qs)"
    unfolding g2 using labels_fold_known [OF known] by (simp add: nodes_create_meeting)
  have k: "length (titled t ?m1) = Suc (length (titled t g1))"
    by (simp add: titled_create_meeting)
  have c: "count_label l g2 = count_label l g1 + (if l = Meeting then 1 else 0) +
      (if l = ActionItem
       then Suc (length (titled t g1)) *
         length (filter (\<lambda>item. description item \<noteq> [] \<and> truthy (assignee item)) action_items)
       else if l = Decision
       then Suc (length (titled t g1)) * length (filter (\<lambda>decision. decision \<noteq> []) decisions)
       else 0)" for l
    by (simp add: count_label_labels l2 k count_core_labels count_items_link_queries
        count_decisions_link_queries)
  have m1: "count_label Meeting g1 = count_label Meeting g0 + 1"
    unfolding g1 count_meetings_fold [OF lk]
    by (simp add: count_label_def nodes_create_meeting)
  show ?thesis
    using c [of Topic] c [of Person] c [of Meeting] c [of ActionItem] c [of Decision] m1 fresh t1 t2
    by simp
qed

theorem reingestion_node_counts_witness:
  "count_label Topic ex_twice = count_label Topic ex_once
   \<and> count_label Person ex_twice = count_label Person ex_once
   \<and> count_label Meeting ex_twice = count_label Meeting ex_once + 1
   \<and> match_nodes Meeting ''title'' (Str ''Standup'') ex_twice =
       [0, length (nodes ex_once)]
   \<and> count_label ActionItem ex_once < count_label ActionItem ex_twice
   \<and> count_label Decision ex_once < count_label Decision ex_twice"
proof -
  have items: "filter (\<lambda>item. description item \<noteq> [] \<and> truthy (assignee item)) ex_items \<noteq> []"
    by (simp add: ex_items_def truthy_def)
  have empty: "match_nodes Meeting ''title'' (Str ''Standup'') empty_graph = []"
      "nodes empty_graph = []"
    by (simp_all add: match_nodes_def empty_graph_def)
  show ?thesis
    using reingestion_node_counts [where t = "''Standup''" and ty = "''Daily''" and d = ex_date
        and topics = "[''budget'']" and action_items = ex_items
        and decisions = "[''Ship on Friday'']" and attendees = ex_attendees and ?g0.0 = empty_graph,
        OF surjective_pairing surjective_pairing, folded ex_once_def, folded ex_twice_def]
      items empty
    by simp
qed

text \<open>The claim as stated fails: a record without action items and decisions leaves
  the numbers of ActionItem and Decision nodes as they were, on every run.\<close>

theorem reingestion_without_items_does_not_grow:
  "\<not> count_label ActionItem ex_plain_once < count_label ActionItem ex_plain_twice
   \<and> \<not> count_label Decision ex_plain_once < count_label Decision ex_plain_twice"
  by code_simp

text \<open>
  C8. With the store available the call raises nothing, and the action item nodes it adds
  are, item by item in the order of the list: for an item whose description is non-empty
  and whose assignee is resolved (neither \<^verbatim>\<open>None\<close> nor empty), one node with the item's
  description, status and priority for every Meeting node of the title (the fresh one
  included, so at least one); for an item that misses either field, nothing.
\<close>

theorem action_items_store:
  "store_in_neo4j neo4j t ty d topics action_items decisions attendees g = (r, g') \<Longrightarrow>
     r = Inr () \<and>
     action_items_of g' = action_items_of g @
       concat (map (\<lambda>item. if description item \<noteq> [] \<and> truthy (assignee item)
                       then replicate (Suc (length (match_nodes Meeting ''title'' (Str t) g)))
                              (action_item_node item)
                       else [])
                 action_items)"
proof -
  let ?qs = "link_queries t topics action_items decisions attendees"
  let ?g1 = "create_meeting t ty d g"
  assume "store_in_neo4j neo4j t ty d topics action_items decisions attendees g = (r, g')"
  then have r: "r = Inr ()" and g': "g' = fold effect ?qs ?g1"
    by (simp_all add: store_in_neo4j_eq)
  have lk: "\<forall>q \<in> set ?qs. linking t q"
    using linking_link_queries by blast
  have "action_items_of g' = action_items_of ?g1 @ concat (map (\<lambda>q. new_action_items q ?g1) ?qs)"
    unfolding g' by (rule action_items_fold [OF lk])
  moreover have "action_items_of ?g1 = action_items_of g"
    by (simp add: action_items_of_def nodes_create_meeting)
  ultimately show ?thesis
    by (simp add: r new_action_items_link_queries titled_create_meeting cong: if_cong)
qed

theorem action_items_store_witness:
  "fst (store_in_neo4j neo4j ''Standup'' ''Daily'' ex_date [] ex_items [] [] empty_graph) = Inr ()
   \<and> action_items_of
       (snd (store_in_neo4j neo4j ''Standup'' ''Daily'' ex_date [] ex_items [] [] empty_graph)) =
     [\<lparr>label = ActionItem,
       props = [(''description'', Str ''Write the report''), (''status'', Str ''pending''),
                (''priority'', Str ''high'')]\<rparr>]"
  using action_items_store [where t = "''Standup''" and ty = "''Daily''" and d = ex_date
      and topics = "[]" and action_items = ex_items and decisions = "[]" and attendees = "[]"
      and g = empty_graph, OF surjective_pairing]
  by (simp add: ex_items_def truthy_def action_items_of_def action_item_node_def match_nodes_def
      empty_graph_def)






















end
